theory Spec2Isabelle
  imports Complex_Main "HOL-Library.Multiset" "HOL-Library.Product_Lexorder"
    "HOL-Library.Code_Target_Nat"
begin

section \<open>Texts\<close>

text \<open>
  A Python \<open>str\<close> is a sequence of Unicode code points. The phrase table of
  \<open>get_reference_text\<close> holds Korean phrases, and \<open>calculate_score\<close> compares texts
  character by character, so a text is modelled as the list of its code points, not as
  bytes. \<open>ascii\<close> turns a literal into its code points.
\<close>

type_synonym str = "nat list"

definition ascii :: "string \<Rightarrow> str" where
  "ascii s = map of_char s"

section \<open>difflib.SequenceMatcher\<close>

text \<open>
  The program builds every matcher as \<open>SequenceMatcher(None, a, b)\<close>: \<open>isjunk\<close> is
  \<open>None\<close>, so the junk set is empty, and \<open>autojunk\<close> keeps its default \<open>True\<close>.

  \<open>__chain_b\<close>: \<open>b2j\<close> maps an element of \<open>b\<close> to the ascending list of its
  positions. The dictionary is read only through \<open>b2j.get(elt, [])\<close>, so it is a function
  with the empty list for an absent key. When \<open>b\<close> has 200 elements or more, the
  elements that occur more than \<open>n // 100 + 1\<close> times are deleted from it.
\<close>

definition b2j_setdefault :: "nat \<times> 'a \<Rightarrow> ('a \<Rightarrow> nat list) \<Rightarrow> ('a \<Rightarrow> nat list)" where
  "b2j_setdefault p b2j = (case p of (i, elt) \<Rightarrow> b2j(elt := b2j elt @ [i]))"

definition chain_b :: "'a list \<Rightarrow> 'a \<Rightarrow> nat list" where
  "chain_b b =
     (let b2j = fold b2j_setdefault (enumerate 0 b) (\<lambda>_. []);
          n = length b
      in if n \<ge> 200
         then (let ntest = n div 100 + 1
               in (\<lambda>elt. if length (b2j elt) > ntest then [] else b2j elt))
         else b2j)"

text \<open>
  \<open>find_longest_match\<close>. A match is the triple \<open>(i, j, size)\<close>.
  The inner loop runs over the positions \<open>j\<close> of \<open>a[i]\<close> in \<open>b\<close>; \<open>continue\<close> skips a
  position below \<open>blo\<close> and \<open>break\<close> leaves the loop at the first one from \<open>bhi\<close> on.
  \<open>j2len.get(j-1, 0)\<close> at \<open>j = 0\<close> asks for the key \<open>-1\<close>, which is never stored.
  The indices are naturals: \<open>i-k+1\<close> is written \<open>i + 1 - k\<close>, and \<open>k \<le> i + 1\<close>,
  \<open>k \<le> j + 1\<close> hold whenever it is computed (lemma \<open>j_loop_inv\<close>).
\<close>

type_synonym match = "nat \<times> nat \<times> nat"

fun j_loop :: "nat \<Rightarrow> nat \<Rightarrow> nat \<Rightarrow> (nat \<rightharpoonup> nat) \<Rightarrow> nat list \<Rightarrow>
    (nat \<rightharpoonup> nat) \<times> match \<Rightarrow> (nat \<rightharpoonup> nat) \<times> match" where
  "j_loop i blo bhi j2len [] st = st"
| "j_loop i blo bhi j2len (j # js) (newj2len, besti, bestj, bestsize) =
     (if j < blo then j_loop i blo bhi j2len js (newj2len, besti, bestj, bestsize)
      else if j \<ge> bhi then (newj2len, besti, bestj, bestsize)
      else
        let k = (if j = 0 then 0 else (case j2len (j - 1) of None \<Rightarrow> 0 | Some v \<Rightarrow> v)) + 1
        in j_loop i blo bhi j2len js
             (newj2len(j \<mapsto> k),
              if k > bestsize then (i + 1 - k, j + 1 - k, k) else (besti, bestj, bestsize)))"

fun i_loop :: "'a list \<Rightarrow> ('a \<Rightarrow> nat list) \<Rightarrow> nat \<Rightarrow> nat \<Rightarrow> nat list \<Rightarrow>
    (nat \<rightharpoonup> nat) \<times> match \<Rightarrow> (nat \<rightharpoonup> nat) \<times> match" where
  "i_loop a b2j blo bhi [] st = st"
| "i_loop a b2j blo bhi (i # is) (j2len, best) =
     i_loop a b2j blo bhi is (j_loop i blo bhi j2len (b2j (a ! i)) (Map.empty, best))"

text \<open>
  The two \<open>while\<close> loops that extend the best match by equal elements on each side
  (\<open>isbjunk\<close> is false everywhere). The two loops after them extend by junk elements
  and never iterate, the junk set being empty.
\<close>

function extend_back :: "'a list \<Rightarrow> 'a list \<Rightarrow> nat \<Rightarrow> nat \<Rightarrow> match \<Rightarrow> match" where
  "extend_back a b alo blo (besti, bestj, bestsize) =
     (if besti > alo \<and> bestj > blo \<and> a ! (besti - 1) = b ! (bestj - 1)
      then extend_back a b alo blo (besti - 1, bestj - 1, bestsize + 1)
      else (besti, bestj, bestsize))"
  by pat_completeness auto
termination
  by (relation "measure (\<lambda>(a, b, alo, blo, besti, bestj, bestsize). besti)") auto

function extend_fwd :: "'a list \<Rightarrow> 'a list \<Rightarrow> nat \<Rightarrow> nat \<Rightarrow> match \<Rightarrow> match" where
  "extend_fwd a b ahi bhi (besti, bestj, bestsize) =
     (if besti + bestsize < ahi \<and> bestj + bestsize < bhi
         \<and> a ! (besti + bestsize) = b ! (bestj + bestsize)
      then extend_fwd a b ahi bhi (besti, bestj, bestsize + 1)
      else (besti, bestj, bestsize))"
  by pat_completeness auto
termination
  by (relation "measure (\<lambda>(a, b, ahi, bhi, besti, bestj, bestsize). ahi - (besti + bestsize))")
     auto

definition find_longest_match :: "'a list \<Rightarrow> 'a list \<Rightarrow> nat \<Rightarrow> nat \<Rightarrow> nat \<Rightarrow> nat \<Rightarrow> match" where
  "find_longest_match a b alo ahi blo bhi =
     extend_fwd a b ahi bhi
       (extend_back a b alo blo
          (snd (i_loop a (chain_b b) blo bhi [alo..<ahi] (Map.empty, alo, blo, 0))))"

text \<open>
  What \<open>find_longest_match\<close> returns lies inside the window it was given: the match
  starts at or after \<open>(alo, blo)\<close> and, when it is not empty, ends at or before
  \<open>(ahi, bhi)\<close>. An empty match is reported at \<open>(alo, blo)\<close>.
\<close>

declare extend_back.simps [simp del] extend_fwd.simps [simp del]

definition best_ok :: "nat \<Rightarrow> nat \<Rightarrow> nat \<Rightarrow> nat \<Rightarrow> match \<Rightarrow> bool" where
  "best_ok alo ahi blo bhi m =
     (case m of (besti, bestj, bestsize) \<Rightarrow>
        alo \<le> besti \<and> blo \<le> bestj \<and>
        (if bestsize = 0 then besti = alo \<and> bestj = blo
         else besti + bestsize \<le> ahi \<and> bestj + bestsize \<le> bhi))"

definition j2len_ok :: "nat \<Rightarrow> nat \<Rightarrow> (nat \<rightharpoonup> nat) \<Rightarrow> bool" where
  "j2len_ok blo n j2len = (\<forall>j v. j2len j = Some v \<longrightarrow> blo \<le> j \<and> v \<le> j + 1 - blo \<and> v \<le> n)"

lemma j_loop_inv:
  assumes "j2len_ok blo (i - alo) j2len" "alo \<le> i" "i < ahi"
    and "j2len_ok blo (i + 1 - alo) new" "best_ok alo ahi blo bhi best"
  shows "j2len_ok blo (i + 1 - alo) (fst (j_loop i blo bhi j2len js (new, best)))
       \<and> best_ok alo ahi blo bhi (snd (j_loop i blo bhi j2len js (new, best)))"
  using assms
proof (induction js arbitrary: new best)
  case Nil
  then show ?case by simp
next
  case (Cons j js)
  obtain bi bj bs where b: "best = (bi, bj, bs)" by (cases best)
  show ?case
  proof (cases "j < blo \<or> j \<ge> bhi")
    case True
    then show ?thesis using Cons b by auto
  next
    case False
    define k where "k = (if j = 0 then 0 else (case j2len (j - 1) of None \<Rightarrow> 0 | Some v \<Rightarrow> v)) + 1"
    have pz: "(if j = 0 then 0 else (case j2len (j - 1) of None \<Rightarrow> 0 | Some v \<Rightarrow> v)) \<le> j - blo
          \<and> (if j = 0 then 0 else (case j2len (j - 1) of None \<Rightarrow> 0 | Some v \<Rightarrow> v)) \<le> i - alo"
    proof (cases "j = 0")
      case True
      then show ?thesis by simp
    next
      case j0: False
      show ?thesis
      proof (cases "j2len (j - 1)")
        case None
        then show ?thesis using j0 by simp
      next
        case (Some v)
        with Cons.prems(1) have "blo \<le> j - 1" "v \<le> j - 1 + 1 - blo" "v \<le> i - alo"
          unfolding j2len_ok_def by blast+
        then show ?thesis using j0 Some by simp
      qed
    qed
    have k1: "k \<le> j + 1 - blo" "k \<le> i + 1 - alo" "k \<ge> 1"
      using pz False Cons.prems(2) unfolding k_def by linarith+
    have n: "j2len_ok blo (i + 1 - alo) (new(j \<mapsto> k))"
      using Cons.prems(4) k1 False unfolding j2len_ok_def by auto
    have bo: "best_ok alo ahi blo bhi (if k > bs then (i + 1 - k, j + 1 - k, k) else (bi, bj, bs))"
      using Cons.prems(5) k1 False Cons.prems(2,3) unfolding best_ok_def b by auto
    have step: "j_loop i blo bhi j2len (j # js) (new, best) =
        j_loop i blo bhi j2len js (new(j \<mapsto> k), if k > bs then (i + 1 - k, j + 1 - k, k) else (bi, bj, bs))"
      using False unfolding b k_def by (simp add: Let_def)
    show ?thesis
      unfolding step by (rule Cons.IH[OF Cons.prems(1,2,3) n bo])
  qed
qed

lemma i_loop_inv:
  assumes "j2len_ok blo (i0 - alo) j2len" "best_ok alo ahi blo bhi best"
    and "alo \<le> i0" "i0 \<le> ahi"
  shows "best_ok alo ahi blo bhi (snd (i_loop a b2j blo bhi [i0..<ahi] (j2len, best)))"
  using assms
proof (induction "ahi - i0" arbitrary: i0 j2len best)
  case 0
  then show ?case by simp
next
  case (Suc n)
  then have lt: "i0 < ahi" by simp
  obtain new best' where r: "j_loop i0 blo bhi j2len (b2j (a ! i0)) (Map.empty, best) = (new, best')"
    by (cases "j_loop i0 blo bhi j2len (b2j (a ! i0)) (Map.empty, best)")
  have e: "j2len_ok blo (i0 + 1 - alo) Map.empty" by (simp add: j2len_ok_def)
  have "j2len_ok blo (i0 + 1 - alo) (fst (j_loop i0 blo bhi j2len (b2j (a ! i0)) (Map.empty, best)))
       \<and> best_ok alo ahi blo bhi (snd (j_loop i0 blo bhi j2len (b2j (a ! i0)) (Map.empty, best)))"
    by (rule j_loop_inv[OF Suc.prems(1) Suc.prems(3) lt e Suc.prems(2)])
  then have inv: "j2len_ok blo (Suc i0 - alo) new" "best_ok alo ahi blo bhi best'"
    unfolding r by simp_all
  have "best_ok alo ahi blo bhi (snd (i_loop a b2j blo bhi [Suc i0..<ahi] (new, best')))"
    using Suc.hyps(1)[of "Suc i0" new best'] Suc.hyps(2) inv Suc.prems lt by auto
  then show ?case using lt r by (simp add: upt_conv_Cons)
qed

lemma extend_back_ok:
  "best_ok alo ahi blo bhi m \<Longrightarrow> best_ok alo ahi blo bhi (extend_back a b alo blo m)"
proof (induction a b alo blo m rule: extend_back.induct)
  case (1 a b alo blo besti bestj bestsize)
  show ?case
  proof (cases "besti > alo \<and> bestj > blo \<and> a ! (besti - 1) = b ! (bestj - 1)")
    case True
    then have "best_ok alo ahi blo bhi (besti - 1, bestj - 1, bestsize + 1)"
      using 1(2) unfolding best_ok_def by (auto split: if_splits)
    then show ?thesis using 1(1) True by (subst extend_back.simps) simp
  next
    case False
    then show ?thesis using 1(2) by (subst extend_back.simps) auto
  qed
qed

lemma extend_fwd_ok:
  "best_ok alo ahi blo bhi m \<Longrightarrow> best_ok alo ahi blo bhi (extend_fwd a b ahi bhi m)"
proof (induction a b ahi bhi m rule: extend_fwd.induct)
  case (1 a b ahi bhi besti bestj bestsize)
  show ?case
  proof (cases "besti + bestsize < ahi \<and> bestj + bestsize < bhi
         \<and> a ! (besti + bestsize) = b ! (bestj + bestsize)")
    case True
    then have "best_ok alo ahi blo bhi (besti, bestj, bestsize + 1)"
      using 1(2) unfolding best_ok_def by (auto split: if_splits)
    then show ?thesis using 1(1) True by (subst extend_fwd.simps) simp
  next
    case False
    then show ?thesis using 1(2) by (subst extend_fwd.simps) auto
  qed
qed

lemma find_longest_match_ok:
  "best_ok alo ahi blo bhi (find_longest_match a b alo ahi blo bhi)"
proof (cases "alo \<le> ahi")
  case True
  have "best_ok alo ahi blo bhi (snd (i_loop a (chain_b b) blo bhi [alo..<ahi] (Map.empty, alo, blo, 0)))"
    by (rule i_loop_inv) (use True in \<open>auto simp: j2len_ok_def best_ok_def\<close>)
  then show ?thesis unfolding find_longest_match_def
    by (intro extend_fwd_ok extend_back_ok)
next
  case False
  then have "best_ok alo ahi blo bhi (snd (i_loop a (chain_b b) blo bhi [alo..<ahi] (Map.empty, alo, blo, 0)))"
    by (simp add: best_ok_def)
  then show ?thesis unfolding find_longest_match_def
    by (intro extend_fwd_ok extend_back_ok)
qed

lemma find_longest_match_bounds:
  assumes "find_longest_match a b alo ahi blo bhi = (i, j, k)"
  shows "alo \<le> i" "blo \<le> j" "k \<noteq> 0 \<Longrightarrow> i + k \<le> ahi" "k \<noteq> 0 \<Longrightarrow> j + k \<le> bhi"
    "k = 0 \<Longrightarrow> i = alo" "k = 0 \<Longrightarrow> j = blo"
  using find_longest_match_ok[of alo ahi blo bhi a b] assms
  by (auto simp: best_ok_def split: if_splits)

text \<open>
  \<open>get_matching_blocks\<close>. The \<open>queue\<close> is a Python list used as a stack
  (\<open>append\<close> and \<open>pop()\<close> work at its end); the model keeps the top of the stack at the
  head of the list, so the window pushed last comes first.
\<close>

type_synonym window = "nat \<times> nat \<times> nat \<times> nat"

function mb_loop :: "'a list \<Rightarrow> 'a list \<Rightarrow> window list \<Rightarrow> match list \<Rightarrow> match list" where
  "mb_loop a b [] matching_blocks = matching_blocks"
| "mb_loop a b ((alo, ahi, blo, bhi) # queue) matching_blocks =
     (case find_longest_match a b alo ahi blo bhi of (i, j, k) \<Rightarrow>
        if k \<noteq> 0 then
          mb_loop a b
            ((if i + k < ahi \<and> j + k < bhi then [(i + k, ahi, j + k, bhi)] else []) @
             (if alo < i \<and> blo < j then [(alo, i, blo, j)] else []) @ queue)
            (matching_blocks @ [(i, j, k)])
        else mb_loop a b queue matching_blocks)"
  by pat_completeness auto
termination
  apply (relation "measure (\<lambda>(a, b, queue, mbs).
    sum_list (map (\<lambda>(alo, ahi, blo, bhi). 2 * (ahi - alo) + 1) queue))")
  apply simp
  subgoal for a b alo ahi blo bhi queue matching_blocks x y xa ya
    using find_longest_match_bounds[of a b alo ahi blo bhi x xa ya] by auto
  subgoal by simp
  done

declare mb_loop.simps [simp del]

text \<open>The loop that collapses adjacent blocks; \<open>(i1, j1, k1)\<close> starts as the dummy \<open>(0, 0, 0)\<close>.\<close>

fun collapse :: "match \<Rightarrow> match list \<Rightarrow> match list \<Rightarrow> match list" where
  "collapse (i1, j1, k1) [] non_adjacent =
     (if k1 \<noteq> 0 then non_adjacent @ [(i1, j1, k1)] else non_adjacent)"
| "collapse (i1, j1, k1) ((i2, j2, k2) # rest) non_adjacent =
     (if i1 + k1 = i2 \<and> j1 + k1 = j2 then collapse (i1, j1, k1 + k2) rest non_adjacent
      else collapse (i2, j2, k2) rest
             (if k1 \<noteq> 0 then non_adjacent @ [(i1, j1, k1)] else non_adjacent))"

definition get_matching_blocks :: "'a list \<Rightarrow> 'a list \<Rightarrow> match list" where
  "get_matching_blocks a b =
     (let la = length a; lb = length b;
          matching_blocks = sort (mb_loop a b [(0, la, 0, lb)] []);
          non_adjacent = collapse (0, 0, 0) matching_blocks []
      in non_adjacent @ [(la, lb, 0)])"

text \<open>\<open>get_opcodes\<close>; the tag \<open>''\<close> (no opcode for the gap) is \<open>None\<close>.\<close>

datatype tag = Replace | Delete | Insert | Equal

type_synonym opcode = "tag \<times> nat \<times> nat \<times> nat \<times> nat"

fun opcodes_loop :: "nat \<Rightarrow> nat \<Rightarrow> match list \<Rightarrow> opcode list \<Rightarrow> opcode list" where
  "opcodes_loop i j [] answer = answer"
| "opcodes_loop i j ((ai, bj, sz) # blocks) answer =
     (let tag = (if i < ai \<and> j < bj then Some Replace
                 else if i < ai then Some Delete
                 else if j < bj then Some Insert
                 else None);
          answer1 = (case tag of Some t \<Rightarrow> answer @ [(t, i, ai, j, bj)] | None \<Rightarrow> answer);
          i' = ai + sz;
          j' = bj + sz;
          answer2 = (if sz \<noteq> 0 then answer1 @ [(Equal, ai, i', bj, j')] else answer1)
      in opcodes_loop i' j' blocks answer2)"

definition get_opcodes :: "'a list \<Rightarrow> 'a list \<Rightarrow> opcode list" where
  "get_opcodes a b = opcodes_loop 0 0 (get_matching_blocks a b) []"

text \<open>
  \<open>ratio\<close> and \<open>_calculate_ratio\<close>. Python computes \<open>2.0 * matches / length\<close> as a
  double; the model computes the exact quotient. The program compares a ratio only with
  the literals \<open>0.7\<close> and \<open>0.85\<close>; division of doubles is correctly rounded and
  rounding is monotone, so each comparison agrees with the exact one for sequences of
  fewer than \<open>2^48\<close> elements together.
\<close>

definition calculate_ratio :: "nat \<Rightarrow> nat \<Rightarrow> rat" where
  "calculate_ratio matches len = (if len \<noteq> 0 then 2 * of_nat matches / of_nat len else 1)"

definition ratio :: "'a list \<Rightarrow> 'a list \<Rightarrow> rat" where
  "ratio a b =
     calculate_ratio (sum_list (map (\<lambda>(i, j, n). n) (get_matching_blocks a b)))
       (length a + length b)"

section \<open>The pronunciation analyser\<close>

subsection \<open>Strings\<close>

text \<open>
  \<open>str.split()\<close> with no argument cuts a string at runs of white space and returns
  the non-empty pieces; \<open>isspace\<close> lists the code points Python takes as white space.
  \<open>str.lower()\<close> follows the Unicode case tables, which are no part of the program:
  the functions that call it take it as the parameter \<open>lower\<close>, and every theorem
  holds for any such function. \<open>ascii_lower\<close> is what it does on ASCII text.
\<close>

definition isspace :: "nat \<Rightarrow> bool" where
  "isspace c = (c \<in> set [9, 10, 11, 12, 13, 28, 29, 30, 31, 32, 133, 160, 5760, 8232, 8233,
                          8239, 8287, 12288] \<or> (8192 \<le> c \<and> c \<le> 8202))"

fun split_loop :: "str \<Rightarrow> str \<Rightarrow> str list" where
  "split_loop w [] = (if w = [] then [] else [w])"
| "split_loop w (c # cs) =
     (if isspace c then (if w = [] then split_loop [] cs else w # split_loop [] cs)
      else split_loop (w @ [c]) cs)"

definition split :: "str \<Rightarrow> str list" where
  "split s = split_loop [] s"

fun join :: "str \<Rightarrow> str list \<Rightarrow> str" where
  "join sep [] = []"
| "join sep [w] = w"
| "join sep (w # v # ws) = w @ sep @ join sep (v # ws)"

definition ascii_lower :: "str \<Rightarrow> str" where
  "ascii_lower s = map (\<lambda>c. if 65 \<le> c \<and> c \<le> 90 then c + 32 else c) s"

fun digits :: "nat \<Rightarrow> str" where
  "digits n = (if n < 10 then [48 + n] else digits (n div 10) @ [48 + n mod 10])"

declare digits.simps [simp del]

text \<open>\<open>d.get(k, default)\<close> on a dictionary literal, kept as the list of its items.\<close>

definition dict_get :: "('k \<times> 'v) list \<Rightarrow> 'k \<Rightarrow> 'v \<Rightarrow> 'v" where
  "dict_get d k dflt = (case map_of d k of Some v \<Rightarrow> v | None \<Rightarrow> dflt)"

subsection \<open>Configuration\<close>

definition DEBUG :: bool where
  "DEBUG = True"

definition en :: str where "en = ascii ''en''"
definition fr :: str where "fr = ascii ''fr''"
definition de :: str where "de = ascii ''de''"
definition nl :: str where "nl = ascii ''nl''"
definition ko :: str where "ko = ascii ''ko''"

definition TIPS_en :: "str list" where
  "TIPS_en = [ascii ''Stress syllables...'', ascii ''Vowel sounds...'', ascii ''Final consonants...'']"

definition LANGUAGE_TIPS :: "(str \<times> str list) list" where
  "LANGUAGE_TIPS =
     [(fr, [ascii ''Nasal vowels...'', ascii ''Final consonants...'',
            ascii ''French '' @ [39] @ ascii ''r'' @ [39] @ ascii ''...'']),
      (de, [ascii ''Consonants clearly...'', ascii ''Vowel length...'',
            [39] @ ascii ''ch'' @ [39] @ ascii '' sounds...'']),
      (nl, [ascii ''Guttural '' @ [39] @ ascii ''g'' @ [39] @ ascii ''...'', ascii ''Vowel length...'',
            [39] @ ascii ''ui'' @ [39] @ ascii '' diphthong...'']),
      (ko, [ascii ''Tense consonants...'', ascii ''Vowel combinations...'',
            ascii ''Even syllables...'']),
      (en, TIPS_en)]"

definition PHRASES_en :: "str list" where
  "PHRASES_en = [ascii ''hello'', ascii ''how are you'', ascii ''my name is'']"

definition COMMON_PHRASES :: "(str \<times> str list) list" where
  "COMMON_PHRASES =
     [(fr, [ascii ''bonjour'', ascii ''comment '' @ [231] @ ascii ''a va'',
            ascii ''je m'' @ [39] @ ascii ''appelle'']),
      (de, [ascii ''hallo'', ascii ''wie geht'' @ [39] @ ascii ''s'', ascii ''mein name ist'']),
      (nl, [ascii ''hallo'', ascii ''hoe gaat het'', ascii ''mijn naam is'']),
      (ko, [[50504, 45397, 54616, 49464, 50836],
            [51060, 47492, 51060, 32, 47952, 50696, 50836],
            [44048, 49324, 54633, 45768, 45796]]),
      (en, PHRASES_en)]"

subsection \<open>\<open>get_reference_text\<close>\<close>

text \<open>
  The \<open>for\<close> loop over the phrases returns from inside at the first phrase over the
  threshold; \<open>None\<close> is the loop running to its end. \<open>COMMON_PHRASES['en']\<close> is the
  default of the \<open>get\<close>; the key is in the literal.
\<close>

fun phrase_loop :: "str list \<Rightarrow> str list \<Rightarrow> str option" where
  "phrase_loop words [] = None"
| "phrase_loop words (phrase # rest) =
     (let phrase_words = split phrase
      in if ratio words phrase_words > 7 / 10 then Some phrase else phrase_loop words rest)"

definition get_reference_text :: "(str \<Rightarrow> str) \<Rightarrow> str \<Rightarrow> str \<Rightarrow> str" where
  "get_reference_text lower recognized_text lang_code =
     (let words = split (lower recognized_text)
      in case phrase_loop words (dict_get COMMON_PHRASES lang_code PHRASES_en) of
           Some phrase \<Rightarrow> phrase
         | None \<Rightarrow> recognized_text)"

subsection \<open>\<open>detect_mistakes\<close>\<close>

datatype mistake_type = incorrect_word | extra_word | pronunciation

record mistake =
  word :: str
  correct :: str
  position :: nat
  mtype :: mistake_type

text \<open>An exception: the name of its class and its message.\<close>

datatype error = Error str str

definition IndexError :: error where
  "IndexError = Error (ascii ''IndexError'') (ascii ''list index out of range'')"

text \<open>
  The body of the \<open>replace\<close>/\<open>delete\<close> branch: the loop over \<open>range(i1, i2)\<close>,
  on the pair \<open>(mistakes, corrected_words)\<close>.
\<close>

fun replace_loop :: "str list \<Rightarrow> str list \<Rightarrow> nat \<Rightarrow> nat list \<Rightarrow>
    mistake list \<times> str list \<Rightarrow> mistake list \<times> str list" where
  "replace_loop recognized_words reference_words j1 [] st = st"
| "replace_loop recognized_words reference_words j1 (i # is) (mistakes, corrected_words) =
     (if i < length recognized_words then
        let m = \<lparr>word = recognized_words ! i,
                 correct = (if j1 < length reference_words then reference_words ! j1 else []),
                 position = i,
                 mtype = incorrect_word\<rparr>
        in replace_loop recognized_words reference_words j1 is
             (mistakes @ [m],
              corrected_words @ [if correct m \<noteq> [] then correct m else ascii ''[silence]''])
      else replace_loop recognized_words reference_words j1 is (mistakes, corrected_words))"

text \<open>
  The body of the \<open>insert\<close> branch. It reads \<open>recognized_words[i]\<close> with no guard,
  which raises \<open>IndexError\<close> for an index out of range.
\<close>

fun insert_loop :: "str list \<Rightarrow> nat list \<Rightarrow> mistake list \<Rightarrow> error + mistake list" where
  "insert_loop recognized_words [] mistakes = Inr mistakes"
| "insert_loop recognized_words (i # is) mistakes =
     (if i < length recognized_words then
        insert_loop recognized_words is
          (mistakes @ [\<lparr>word = recognized_words ! i, correct = [], position = i,
                         mtype = extra_word\<rparr>])
      else Inl IndexError)"

fun opcode_loop :: "str list \<Rightarrow> str list \<Rightarrow> opcode list \<Rightarrow>
    mistake list \<times> str list \<Rightarrow> error + mistake list \<times> str list" where
  "opcode_loop recognized_words reference_words [] st = Inr st"
| "opcode_loop recognized_words reference_words ((tag, i1, i2, j1, j2) # ops)
       (mistakes, corrected_words) =
     (if tag = Replace \<or> tag = Delete then
        opcode_loop recognized_words reference_words ops
          (replace_loop recognized_words reference_words j1 [i1..<i2] (mistakes, corrected_words))
      else if tag = Insert then
        (case insert_loop recognized_words [i1..<i2] mistakes of
           Inl e \<Rightarrow> Inl e
         | Inr mistakes' \<Rightarrow>
             opcode_loop recognized_words reference_words ops (mistakes', corrected_words))
      else if tag = Equal then
        opcode_loop recognized_words reference_words ops
          (mistakes, corrected_words @ take (i2 - i1) (drop i1 recognized_words))
      else opcode_loop recognized_words reference_words ops (mistakes, corrected_words))"

text \<open>The escalation loop: it rewrites the \<open>type\<close> of a mistake in place.\<close>

fun escalate :: "mistake list \<Rightarrow> mistake list" where
  "escalate [] = []"
| "escalate (m # ms) =
     (if mtype m = incorrect_word then m\<lparr>mtype := pronunciation\<rparr> else m) # escalate ms"

text \<open>
  \<open>phonemize\<close> is the call into the phonemizer package: given a text and a language it
  returns the phoneme string or raises. The \<open>try\<close> block catches every exception of
  the two calls and passes \<open>Phonemization failed: ...\<close> to \<open>debug_log\<close>.
  \<open>escalation\<close> is the block under \<open>if lang_code in [...]\<close>: it returns the mistakes
  and the messages logged. \<open>detect_mistakes\<close> returns what the function returns or
  raises, together with the messages logged.
\<close>

definition escalation :: "(str \<Rightarrow> str \<Rightarrow> error + str) \<Rightarrow> str \<Rightarrow> str \<Rightarrow> str \<Rightarrow>
    mistake list \<Rightarrow> mistake list \<times> str list" where
  "escalation phonemize recognized_text reference_text lang_code mistakes =
     (if lang_code \<in> set [en, fr, de, nl, ko] then
        (case phonemize recognized_text lang_code of
           Inl (Error cls msg) \<Rightarrow> (mistakes, [ascii ''Phonemization failed: '' @ msg])
         | Inr recognized_phonemes \<Rightarrow>
             (case phonemize reference_text lang_code of
                Inl (Error cls msg) \<Rightarrow> (mistakes, [ascii ''Phonemization failed: '' @ msg])
              | Inr reference_phonemes \<Rightarrow>
                  if ratio (split recognized_phonemes) (split reference_phonemes) < 85 / 100
                  then (escalate mistakes, [])
                  else (mistakes, [])))
      else (mistakes, []))"

definition detect_mistakes :: "(str \<Rightarrow> str) \<Rightarrow> (str \<Rightarrow> str \<Rightarrow> error + str) \<Rightarrow>
    str \<Rightarrow> str \<Rightarrow> str \<Rightarrow> (error + mistake list \<times> str) \<times> str list" where
  "detect_mistakes lower phonemize recognized_text reference_text lang_code =
     (let recognized_words = split (lower recognized_text);
          reference_words = split (lower reference_text)
      in case opcode_loop recognized_words reference_words
                (get_opcodes recognized_words reference_words) ([], []) of
           Inl e \<Rightarrow> (Inl e, [])
         | Inr (mistakes, corrected_words) \<Rightarrow>
             (case escalation phonemize recognized_text reference_text lang_code mistakes of
                (mistakes', logged) \<Rightarrow>
                  (Inr (mistakes', join (ascii '' '') corrected_words), logged)))"

subsection \<open>\<open>generate_feedback\<close>\<close>

definition quote :: "str \<Rightarrow> str" where
  "quote s = [39] @ s @ [39]"

definition praise :: str where
  "praise = ascii ''Excellent pronunciation! No mistakes detected.''"

definition pronunciation_line :: "mistake \<Rightarrow> str" where
  "pronunciation_line err =
     [8226, 32] @ quote (word err) @ ascii '' sounded like '' @ word err
       @ ascii '' instead of '' @ correct err"

definition word_line :: "mistake \<Rightarrow> str" where
  "word_line err =
     (if correct err \<noteq> [] then
        [8226] @ ascii '' Used '' @ quote (word err) @ ascii '' instead of '' @ quote (correct err)
      else [8226] @ ascii '' Unrecognized word: '' @ quote (word err))"

definition generate_feedback :: "mistake list \<Rightarrow> str \<Rightarrow> str list" where
  "generate_feedback mistakes lang_code =
     (if mistakes = [] then
        [praise] @ take 2 (dict_get LANGUAGE_TIPS lang_code TIPS_en)
      else
        let pronunciation_errors = filter (\<lambda>m. mtype m = pronunciation) mistakes;
            word_errors = filter (\<lambda>m. mtype m = incorrect_word) mistakes;
            extra_words = filter (\<lambda>m. mtype m = extra_word) mistakes;
            feedback1 =
              (if pronunciation_errors \<noteq> [] then
                 [ascii ''Pronunciation issues ('' @ digits (length pronunciation_errors)
                    @ ascii ''):'']
                 @ map pronunciation_line (take 3 pronunciation_errors)
               else []);
            feedback2 =
              (if word_errors \<noteq> [] then
                 [ascii ''Incorrect words ('' @ digits (length word_errors) @ ascii ''):'']
                 @ map word_line (take 3 word_errors)
               else []);
            feedback3 =
              (if extra_words \<noteq> [] then
                 [ascii ''Extra words detected ('' @ digits (length extra_words) @ ascii '')'']
               else [])
        in feedback1 @ feedback2 @ feedback3
           @ [[10] @ ascii ''Tips for improvement:'']
           @ dict_get LANGUAGE_TIPS lang_code TIPS_en)"

subsection \<open>\<open>calculate_score\<close>\<close>

text \<open>
  The matcher is built on the two lowercased strings, so it compares characters. The
  score is the exact rational where Python has the nearest double.
\<close>

definition weight :: "mistake \<Rightarrow> nat" where
  "weight m = (if mtype m = pronunciation then 3 else if mtype m = incorrect_word then 2 else 1)"

definition calculate_score :: "(str \<Rightarrow> str) \<Rightarrow> str \<Rightarrow> str \<Rightarrow> mistake list \<Rightarrow> rat" where
  "calculate_score lower recognized_text reference_text mistakes =
     (if reference_text = [] then 0
      else
        let similarity = ratio (lower recognized_text) (lower reference_text);
            base_score = similarity * 100;
            penalty = sum_list (map weight mistakes)
        in max 0 (min 100 (base_score - of_nat (min penalty 40))))"

subsection \<open>\<open>analyze_pronunciation\<close>\<close>

text \<open>
  The function returns a dictionary that the caller dumps as JSON; it is kept as the
  list of its items in insertion order.

  \<open>validate_audio\<close>, \<open>convert_audio\<close>, \<open>load_model\<close> and \<open>recognize_speech\<close> read
  files and run the recogniser. Their joint outcome is the parameter \<open>front_end\<close>:
  the exception one of them raised, or the converted audio with the recognised text.
  \<open>now\<close> is \<open>datetime.now().isoformat()\<close> and \<open>tb\<close> is \<open>traceback.format_exc()\<close>.
\<close>

datatype json = JStr str | JNat nat | JNum rat | JList "json list" | JObj "(str \<times> json) list"

record audio =
  duration_ms :: nat
  frame_rate :: nat
  channels :: nat

definition mistake_json :: "mistake \<Rightarrow> json" where
  "mistake_json m =
     JObj [(ascii ''word'', JStr (word m)),
           (ascii ''correct'', JStr (correct m)),
           (ascii ''position'', JNat (position m)),
           (ascii ''type'', JStr (case mtype m of
               incorrect_word \<Rightarrow> ascii ''incorrect_word''
             | extra_word \<Rightarrow> ascii ''extra_word''
             | pronunciation \<Rightarrow> ascii ''pronunciation''))]"

definition error_info :: "error \<Rightarrow> str \<Rightarrow> str \<Rightarrow> (str \<times> json) list" where
  "error_info e now tb =
     (case e of Error cls msg \<Rightarrow>
        [(ascii ''error'', JStr (ascii ''Analysis failed'')),
         (ascii ''message'', JStr msg),
         (ascii ''type'', JStr cls),
         (ascii ''timestamp'', JStr now)]
        @ (if DEBUG then [(ascii ''traceback'', JStr tb)] else []))"

definition analyze_pronunciation :: "(str \<Rightarrow> str) \<Rightarrow> (str \<Rightarrow> str \<Rightarrow> error + str) \<Rightarrow>
    error + audio \<times> str \<Rightarrow> str \<Rightarrow> str \<Rightarrow> str \<Rightarrow> (str \<times> json) list" where
  "analyze_pronunciation lower phonemize front_end now tb language =
     (case front_end of
        Inl e \<Rightarrow> error_info e now tb
      | Inr (processed_audio, recognized_text) \<Rightarrow>
          if recognized_text = [] then
            [(ascii ''error'', JStr (ascii ''No speech detected'')),
             (ascii ''debug'',
              JObj [(ascii ''duration_ms'', JNat (duration_ms processed_audio)),
                    (ascii ''sample_rate'', JNat (frame_rate processed_audio)),
                    (ascii ''channels'', JNat (channels processed_audio))])]
          else
            let reference_text = get_reference_text lower recognized_text language
            in case fst (detect_mistakes lower phonemize recognized_text reference_text language) of
                 Inl e \<Rightarrow> error_info e now tb
               | Inr (mistakes, corrected_text) \<Rightarrow>
                   let feedback = generate_feedback mistakes language;
                       score = calculate_score lower recognized_text reference_text mistakes
                   in [(ascii ''original_text'', JStr recognized_text),
                       (ascii ''reference_text'', JStr reference_text),
                       (ascii ''corrected_text'', JStr corrected_text),
                       (ascii ''mistakes'', JList (map mistake_json mistakes)),
                       (ascii ''feedback'', JList (map JStr feedback)),
                       (ascii ''score'', JNum score),
                       (ascii ''language'', JStr language)])"

section \<open>Notions used to state the properties\<close>

text \<open>The five components of an opcode.\<close>

fun op_tag :: "opcode \<Rightarrow> tag" where "op_tag (t, i1, i2, j1, j2) = t"
fun op_i1 :: "opcode \<Rightarrow> nat" where "op_i1 (t, i1, i2, j1, j2) = i1"
fun op_i2 :: "opcode \<Rightarrow> nat" where "op_i2 (t, i1, i2, j1, j2) = i2"
fun op_j1 :: "opcode \<Rightarrow> nat" where "op_j1 (t, i1, i2, j1, j2) = j1"
fun op_j2 :: "opcode \<Rightarrow> nat" where "op_j2 (t, i1, i2, j1, j2) = j2"

definition insert_empty :: "opcode list \<Rightarrow> bool" where
  "insert_empty ops = (\<forall>op \<in> set ops. op_tag op = Insert \<longrightarrow> op_i2 op \<le> op_i1 op)"

text \<open>
  The recursive form of \<open>get_matching_blocks\<close> (the library's comment calls it the
  natural one): the blocks left of the longest match, the match, the blocks right of it.
\<close>

function blocks_rec :: "'a list \<Rightarrow> 'a list \<Rightarrow> nat \<Rightarrow> nat \<Rightarrow> nat \<Rightarrow> nat \<Rightarrow> match list" where
  "blocks_rec a b alo ahi blo bhi =
     (case find_longest_match a b alo ahi blo bhi of (i, j, k) \<Rightarrow>
        if k \<noteq> 0 then
          (if alo < i \<and> blo < j then blocks_rec a b alo i blo j else [])
          @ [(i, j, k)]
          @ (if i + k < ahi \<and> j + k < bhi then blocks_rec a b (i + k) ahi (j + k) bhi else [])
        else [])"
  by pat_completeness auto
termination
  apply (relation "measure (\<lambda>(a, b, alo, ahi, blo, bhi). ahi - alo)")
  apply simp
  subgoal for a b alo ahi blo bhi x y xa ya
    using find_longest_match_bounds[of a b alo ahi blo bhi x xa ya] by auto
  subgoal for a b alo ahi blo bhi x y xa ya
    using find_longest_match_bounds[of a b alo ahi blo bhi x xa ya] by auto
  done

declare blocks_rec.simps [simp del]

text \<open>
  \<open>mono_blocks i0 j0 ahi bhi bs\<close>: the blocks \<open>bs\<close> are not empty, each starts at or
  after the end of the one before it in both sequences, the first at or after
  \<open>(i0, j0)\<close>, and the last ends at or before \<open>(ahi, bhi)\<close>.
\<close>

fun mono_blocks :: "nat \<Rightarrow> nat \<Rightarrow> nat \<Rightarrow> nat \<Rightarrow> match list \<Rightarrow> bool" where
  "mono_blocks i0 j0 ahi bhi [] = (i0 \<le> ahi \<and> j0 \<le> bhi)"
| "mono_blocks i0 j0 ahi bhi ((i, j, k) # bs) =
     (i0 \<le> i \<and> j0 \<le> j \<and> 0 < k \<and> mono_blocks (i + k) (j + k) ahi bhi bs)"

text \<open>The pending block of the collapsing loop, as a list: the dummy counts for nothing.\<close>

definition cur :: "match \<Rightarrow> match list" where
  "cur m = (case m of (i, j, k) \<Rightarrow> if k \<noteq> 0 then [(i, j, k)] else [])"

text \<open>
  \<open>ops_chain i j la lb ops\<close>: the opcodes \<open>ops\<close> start at \<open>(i, j)\<close>, each starts
  where the one before it ends, the last ends at \<open>(la, lb)\<close>, and the ranges of each
  fit its tag.
\<close>

fun tag_ok :: "opcode \<Rightarrow> bool" where
  "tag_ok (Replace, i1, i2, j1, j2) = (i1 < i2 \<and> j1 < j2)"
| "tag_ok (Delete, i1, i2, j1, j2) = (i1 < i2 \<and> j1 = j2)"
| "tag_ok (Insert, i1, i2, j1, j2) = (i1 = i2 \<and> j1 < j2)"
| "tag_ok (Equal, i1, i2, j1, j2) = (i1 < i2 \<and> j1 < j2 \<and> i2 - i1 = j2 - j1)"

fun ops_chain :: "nat \<Rightarrow> nat \<Rightarrow> nat \<Rightarrow> nat \<Rightarrow> opcode list \<Rightarrow> bool" where
  "ops_chain i j la lb [] = (i = la \<and> j = lb)"
| "ops_chain i j la lb (op # ops) =
     (op_i1 op = i \<and> op_j1 op = j \<and> tag_ok op \<and> ops_chain (op_i2 op) (op_j2 op) la lb ops)"

text \<open>
  For the matcher on a sequence and itself. \<open>pz j2len j\<close> is \<open>j2len.get(j-1, 0)\<close>.
  \<open>nb b2j a lo i\<close> counts the positions just before \<open>i\<close>, from \<open>lo\<close> on, whose
  elements are all still keys of \<open>b2j\<close>. \<open>diag_inv\<close> is the invariant of the outer
  loop of \<open>find_longest_match\<close> when row \<open>i\<close> starts: the best match lies on the
  diagonal and is at least as long as every run counted so far.
\<close>

definition pz :: "(nat \<rightharpoonup> nat) \<Rightarrow> nat \<Rightarrow> nat" where
  "pz j2len j = (if j = 0 then 0 else (case j2len (j - 1) of None \<Rightarrow> 0 | Some v \<Rightarrow> v))"

fun nb :: "('a \<Rightarrow> nat list) \<Rightarrow> 'a list \<Rightarrow> nat \<Rightarrow> nat \<Rightarrow> nat" where
  "nb b2j a lo 0 = 0"
| "nb b2j a lo (Suc j) = (if j < lo \<or> b2j (a ! j) = [] then 0 else nb b2j a lo j + 1)"

definition diag_inv :: "('a \<Rightarrow> nat list) \<Rightarrow> 'a list \<Rightarrow> nat \<Rightarrow> nat \<Rightarrow> (nat \<rightharpoonup> nat) \<times> match \<Rightarrow> bool" where
  "diag_inv b2j a lo i st =
     (case st of (j2len, bi, bj, bs) \<Rightarrow>
        bi = bj \<and> (\<forall>j. pz j2len j \<le> nb b2j a lo j) \<and> (\<forall>j. pz j2len j \<le> nb b2j a lo i)
        \<and> pz j2len i = nb b2j a lo i \<and> (\<forall>j \<le> i. nb b2j a lo j \<le> bs))"

section \<open>Properties of the matcher\<close>

lemma mono_blocks_weaken:
  "mono_blocks i j ahi bhi bs \<Longrightarrow> i0 \<le> i \<Longrightarrow> j0 \<le> j \<Longrightarrow> mono_blocks i0 j0 ahi bhi bs"
  by (cases bs) auto

lemma mono_blocks_append:
  "mono_blocks i0 j0 i j xs \<Longrightarrow> mono_blocks i j ahi bhi ys \<Longrightarrow> mono_blocks i0 j0 ahi bhi (xs @ ys)"
proof (induction xs arbitrary: i0 j0)
  case Nil
  then show ?case by (auto intro: mono_blocks_weaken)
next
  case (Cons x xs)
  obtain i' j' k' where x: "x = (i', j', k')" by (cases x)
  show ?case using Cons.prems Cons.IH[of "i' + k'" "j' + k'"] unfolding x by simp
qed

lemma blocks_rec_mono:
  "alo \<le> ahi \<Longrightarrow> blo \<le> bhi \<Longrightarrow> mono_blocks alo blo ahi bhi (blocks_rec a b alo ahi blo bhi)"
proof (induction a b alo ahi blo bhi rule: blocks_rec.induct)
  case (1 a b alo ahi blo bhi)
  obtain i j k where f: "find_longest_match a b alo ahi blo bhi = (i, j, k)"
    by (cases "find_longest_match a b alo ahi blo bhi")
  note bd = find_longest_match_bounds[OF f]
  show ?case
  proof (cases "k = 0")
    case True
    then show ?thesis using f 1(3,4) by (subst blocks_rec.simps) simp
  next
    case False
    define left where "left = (if alo < i \<and> blo < j then blocks_rec a b alo i blo j else [])"
    define right where
      "right = (if i + k < ahi \<and> j + k < bhi then blocks_rec a b (i + k) ahi (j + k) bhi else [])"
    have l: "mono_blocks alo blo i j left"
      unfolding left_def using 1(1)[OF f[symmetric] refl False] bd(1,2) by auto
    have r: "mono_blocks (i + k) (j + k) ahi bhi right"
      unfolding right_def using 1(2)[OF f[symmetric] refl False] bd(3,4) False by auto
    have m: "mono_blocks i j ahi bhi ((i, j, k) # right)" using r False by simp
    have "blocks_rec a b alo ahi blo bhi = left @ (i, j, k) # right"
      using f False unfolding left_def right_def by (subst blocks_rec.simps) simp
    then show ?thesis using mono_blocks_append[OF l m] by simp
  qed
qed

lemma mb_loop_mset:
  "mset (mb_loop a b queue acc) =
     mset acc + (\<Sum>(alo, ahi, blo, bhi)\<leftarrow>queue. mset (blocks_rec a b alo ahi blo bhi))"
proof (induction a b queue acc rule: mb_loop.induct)
  case (1 a b matching_blocks)
  then show ?case by (simp add: mb_loop.simps)
next
  case (2 a b alo ahi blo bhi queue matching_blocks)
  obtain i j k where f: "find_longest_match a b alo ahi blo bhi = (i, j, k)"
    by (cases "find_longest_match a b alo ahi blo bhi")
  show ?case
  proof (cases "k = 0")
    case True
    have "blocks_rec a b alo ahi blo bhi = []"
      using f True by (subst blocks_rec.simps) simp
    then show ?thesis using 2(2)[OF f[symmetric] refl] True f
      by (subst mb_loop.simps) simp
  next
    case False
    have br: "mset (blocks_rec a b alo ahi blo bhi) =
       (if alo < i \<and> blo < j then mset (blocks_rec a b alo i blo j) else {#})
       + {#(i, j, k)#}
       + (if i + k < ahi \<and> j + k < bhi then mset (blocks_rec a b (i + k) ahi (j + k) bhi) else {#})"
      using f False by (subst blocks_rec.simps) simp
    show ?thesis using 2(1)[OF f[symmetric] refl False] False f
      by (subst mb_loop.simps) (simp add: br)
  qed
qed

lemma mono_blocks_lower:
  "mono_blocks i0 j0 ahi bhi bs \<Longrightarrow> x \<in> set bs \<Longrightarrow> i0 \<le> fst x"
proof (induction bs arbitrary: i0 j0)
  case Nil
  then show ?case by simp
next
  case (Cons y bs)
  obtain i j k where y: "y = (i, j, k)" by (cases y)
  show ?case
  proof (cases "x = y")
    case True
    then show ?thesis using Cons.prems y by simp
  next
    case False
    then have "i + k \<le> fst x" using Cons.IH[of "i + k" "j + k"] Cons.prems y by simp
    then show ?thesis using Cons.prems y by simp
  qed
qed

lemma mono_blocks_sorted: "mono_blocks i0 j0 ahi bhi bs \<Longrightarrow> sorted bs"
proof (induction bs arbitrary: i0 j0)
  case Nil
  then show ?case by simp
next
  case (Cons y bs)
  obtain i j k where y: "y = (i, j, k)" by (cases y)
  have m: "mono_blocks (i + k) (j + k) ahi bhi bs" and k: "0 < k" using Cons.prems y by auto
  have "\<forall>x \<in> set bs. y \<le> x"
  proof
    fix x assume "x \<in> set bs"
    from mono_blocks_lower[OF m this] k have "i < fst x" by simp
    then show "y \<le> x" unfolding y by (simp add: less_eq_prod_def)
  qed
  then show ?case using Cons.IH[OF m] by simp
qed

lemma sort_mb_loop:
  "sort (mb_loop a b [(0, length a, 0, length b)] []) = blocks_rec a b 0 (length a) 0 (length b)"
proof (rule properties_for_sort)
  show "mset (blocks_rec a b 0 (length a) 0 (length b)) = mset (mb_loop a b [(0, length a, 0, length b)] [])"
    by (simp add: mb_loop_mset)
  show "sorted (blocks_rec a b 0 (length a) 0 (length b))"
    by (rule mono_blocks_sorted[OF blocks_rec_mono]) simp_all
qed

lemma mono_blocks_merge:
  "mono_blocks i0 j0 ahi bhi (acc @ (i1, j1, k1) # (i1 + k1, j1 + k1, k2) # rest)
   \<Longrightarrow> mono_blocks i0 j0 ahi bhi (acc @ (i1, j1, k1 + k2) # rest)"
proof (induction acc arbitrary: i0 j0)
  case Nil
  then show ?case by (simp add: add.assoc)
next
  case (Cons x acc)
  obtain i j k where x: "x = (i, j, k)" by (cases x)
  show ?case using Cons.prems Cons.IH[of "i + k" "j + k"] unfolding x by simp
qed

lemma mono_blocks_mid_pos:
  "mono_blocks i0 j0 ahi bhi (acc @ (i, j, k) # rest) \<Longrightarrow> 0 < k"
proof (induction acc arbitrary: i0 j0)
  case Nil
  then show ?case by simp
next
  case (Cons x acc)
  obtain i' j' k' where x: "x = (i', j', k')" by (cases x)
  show ?case using Cons.prems Cons.IH[of "i' + k'" "j' + k'"] unfolding x by simp
qed

lemma collapse_mono:
  "mono_blocks i0 j0 ahi bhi (acc @ cur (i1, j1, k1) @ rest)
   \<Longrightarrow> mono_blocks i0 j0 ahi bhi (collapse (i1, j1, k1) rest acc)"
proof (induction rest arbitrary: i1 j1 k1 acc)
  case Nil
  then show ?case by (auto simp: cur_def split: if_splits)
next
  case (Cons x rest)
  obtain i2 j2 k2 where x: "x = (i2, j2, k2)" by (cases x)
  have k2: "0 < k2"
    using mono_blocks_mid_pos[of i0 j0 ahi bhi "acc @ cur (i1, j1, k1)" i2 j2 k2 rest]
      Cons.prems unfolding x by simp
  show ?case
  proof (cases "i1 + k1 = i2 \<and> j1 + k1 = j2")
    case True
    have "mono_blocks i0 j0 ahi bhi (acc @ cur (i1, j1, k1 + k2) @ rest)"
    proof (cases "k1 = 0")
      case k0: True
      then show ?thesis using Cons.prems True k2 unfolding x cur_def by simp
    next
      case False
      then show ?thesis
        using mono_blocks_merge[of i0 j0 ahi bhi acc i1 j1 k1 k2 rest] Cons.prems True k2
        unfolding x cur_def by simp
    qed
    from Cons.IH[OF this] show ?thesis using True unfolding x by simp
  next
    case False
    have "mono_blocks i0 j0 ahi bhi ((if k1 \<noteq> 0 then acc @ [(i1, j1, k1)] else acc)
        @ cur (i2, j2, k2) @ rest)"
      using Cons.prems k2 unfolding x cur_def by (auto split: if_splits)
    from Cons.IH[OF this] show ?thesis using False unfolding x by auto
  qed
qed

lemma get_matching_blocks_mono:
  "\<exists>bs. get_matching_blocks a b = bs @ [(length a, length b, 0)]
     \<and> mono_blocks 0 0 (length a) (length b) bs"
proof -
  have "mono_blocks 0 0 (length a) (length b) (blocks_rec a b 0 (length a) 0 (length b))"
    by (rule blocks_rec_mono) simp_all
  then have "mono_blocks 0 0 (length a) (length b)
      ([] @ cur (0, 0, 0) @ blocks_rec a b 0 (length a) 0 (length b))"
    by (simp add: cur_def)
  from collapse_mono[OF this] show ?thesis
    unfolding get_matching_blocks_def Let_def sort_mb_loop by simp
qed

lemma opcodes_loop_acc:
  "opcodes_loop i j blocks answer = answer @ opcodes_loop i j blocks []"
proof (induction blocks arbitrary: i j answer)
  case Nil
  then show ?case by simp
next
  case (Cons blk blocks)
  obtain ai bj sz where blk: "blk = (ai, bj, sz)" by (cases blk)
  define gap where "gap = (if i < ai \<and> j < bj then [(Replace, i, ai, j, bj)]
     else if i < ai then [(Delete, i, ai, j, bj)]
     else if j < bj then [(Insert, i, ai, j, bj)] else [])"
  define eq where "eq = (if sz \<noteq> 0 then [(Equal, ai, ai + sz, bj, bj + sz)] else [])"
  have s: "opcodes_loop i j (blk # blocks) ans = opcodes_loop (ai + sz) (bj + sz) blocks (ans @ gap @ eq)"
    for ans unfolding blk gap_def eq_def by (simp add: Let_def)
  show ?case unfolding s
    using Cons.IH[of "ai + sz" "bj + sz" "answer @ gap @ eq"]
      Cons.IH[of "ai + sz" "bj + sz" "[] @ gap @ eq"] by simp
qed

lemma opcodes_loop_step:
  "opcodes_loop i j ((ai, bj, sz) # blocks) [] =
     (if i < ai \<and> j < bj then [(Replace, i, ai, j, bj)]
      else if i < ai then [(Delete, i, ai, j, bj)]
      else if j < bj then [(Insert, i, ai, j, bj)] else [])
     @ (if sz \<noteq> 0 then [(Equal, ai, ai + sz, bj, bj + sz)] else [])
     @ opcodes_loop (ai + sz) (bj + sz) blocks []"
proof -
  have "opcodes_loop i j ((ai, bj, sz) # blocks) [] =
      opcodes_loop (ai + sz) (bj + sz) blocks
       ((if i < ai \<and> j < bj then [(Replace, i, ai, j, bj)]
      else if i < ai then [(Delete, i, ai, j, bj)]
      else if j < bj then [(Insert, i, ai, j, bj)] else [])
     @ (if sz \<noteq> 0 then [(Equal, ai, ai + sz, bj, bj + sz)] else []))"
    by (simp add: Let_def)
  also have "\<dots> = ((if i < ai \<and> j < bj then [(Replace, i, ai, j, bj)]
      else if i < ai then [(Delete, i, ai, j, bj)]
      else if j < bj then [(Insert, i, ai, j, bj)] else [])
     @ (if sz \<noteq> 0 then [(Equal, ai, ai + sz, bj, bj + sz)] else []))
     @ opcodes_loop (ai + sz) (bj + sz) blocks []"
    by (rule opcodes_loop_acc)
  finally show ?thesis by simp
qed

lemma opcodes_chain:
  "mono_blocks i j la lb bs \<Longrightarrow> ops_chain i j la lb (opcodes_loop i j (bs @ [(la, lb, 0)]) [])"
proof (induction bs arbitrary: i j)
  case Nil
  then show ?case by (auto simp: opcodes_loop_step simp del: opcodes_loop.simps(2))
next
  case (Cons blk bs)
  obtain ai bj sz where blk: "blk = (ai, bj, sz)" by (cases blk)
  from Cons.prems have p: "i \<le> ai" "j \<le> bj" "0 < sz" "mono_blocks (ai + sz) (bj + sz) la lb bs"
    unfolding blk by auto
  from Cons.IH[OF p(4)] p(1,2,3) show ?case
    unfolding blk by (auto simp: opcodes_loop_step simp del: opcodes_loop.simps(2))
qed

lemma get_opcodes_chain: "ops_chain 0 0 (length a) (length b) (get_opcodes a b)"
proof -
  obtain bs where "get_matching_blocks a b = bs @ [(length a, length b, 0)]"
    "mono_blocks 0 0 (length a) (length b) bs"
    using get_matching_blocks_mono by blast
  then show ?thesis unfolding get_opcodes_def using opcodes_chain by simp
qed

subsection \<open>A sequence against itself, and against the empty sequence\<close>

lemma fold_b2j:
  "fold b2j_setdefault (enumerate n b) m x = m x @ [j \<leftarrow> [n..<n + length b]. b ! (j - n) = x]"
proof (induction b arbitrary: n m)
  case Nil
  then show ?case by simp
next
  case (Cons y ys)
  have f: "[j \<leftarrow> [Suc n..<Suc n + length ys]. (y # ys) ! (j - n) = x]
      = [j \<leftarrow> [Suc n..<Suc n + length ys]. ys ! (j - Suc n) = x]"
  proof (rule filter_cong)
    fix j assume "j \<in> set [Suc n..<Suc n + length ys]"
    then have "j - n = Suc (j - Suc n)" by auto
    then show "((y # ys) ! (j - n) = x) = (ys ! (j - Suc n) = x)" by simp
  qed simp
  have u: "[n..<n + length (y # ys)] = n # [Suc n..<Suc n + length ys]"
  proof -
    have "[n..<Suc (n + length ys)] = n # [Suc n..<Suc (n + length ys)]"
      by (rule upt_conv_Cons) simp
    then show ?thesis by simp
  qed
  have "fold b2j_setdefault (enumerate n (y # ys)) m x
      = fold b2j_setdefault (enumerate (Suc n) ys) (b2j_setdefault (n, y) m) x"
    by simp
  also have "\<dots> = b2j_setdefault (n, y) m x @ [j \<leftarrow> [Suc n..<Suc n + length ys]. ys ! (j - Suc n) = x]"
    by (rule Cons.IH)
  also have "\<dots> = m x @ (if y = x then [n] else [])
      @ [j \<leftarrow> [Suc n..<Suc n + length ys]. (y # ys) ! (j - n) = x]"
    unfolding f by (simp add: b2j_setdefault_def)
  also have "\<dots> = m x @ [j \<leftarrow> n # [Suc n..<Suc n + length ys]. (y # ys) ! (j - n) = x]"
    by simp
  finally show ?case unfolding u .
qed

lemma chain_b_cases:
  "chain_b b x = [] \<or> chain_b b x = [j \<leftarrow> [0..<length b]. b ! j = x]"
  unfolding chain_b_def Let_def using fold_b2j[of 0 b "\<lambda>_. []" x] by auto

lemma j_loop_new:
  "sorted js \<Longrightarrow>
   fst (j_loop i blo bhi j2len js (new, best)) j =
     (if j \<in> set js \<and> blo \<le> j \<and> j < bhi then Some (pz j2len j + 1) else new j)"
proof (induction js arbitrary: new best)
  case Nil
  then show ?case by simp
next
  case (Cons j0 js)
  obtain bi bj bs where b: "best = (bi, bj, bs)" by (cases best)
  have s: "sorted js" and ge: "\<forall>x \<in> set js. j0 \<le> x" using Cons.prems by auto
  show ?case
  proof (cases "j0 < blo")
    case True
    then show ?thesis using Cons.IH[OF s, of new best] b by auto
  next
    case nlo: False
    show ?thesis
    proof (cases "j0 \<ge> bhi")
      case True
      then show ?thesis using nlo b ge by auto
    next
      case False
      define k where "k = pz j2len j0 + 1"
      have step: "j_loop i blo bhi j2len (j0 # js) (new, best) =
        j_loop i blo bhi j2len js (new(j0 \<mapsto> k), if k > bs then (i + 1 - k, j0 + 1 - k, k) else (bi, bj, bs))"
        using False nlo unfolding b k_def pz_def by (simp add: Let_def)
      show ?thesis unfolding step using Cons.IH[OF s] False nlo k_def by auto
    qed
  qed
qed

lemma j_loop_best_le:
  "\<forall>j \<in> set js. blo \<le> j \<and> j < bhi \<longrightarrow> pz j2len j + 1 \<le> bs \<Longrightarrow>
   snd (j_loop i blo bhi j2len js (new, bi, bj, bs)) = (bi, bj, bs)"
proof (induction js arbitrary: new)
  case Nil
  then show ?case by simp
next
  case (Cons j0 js)
  then show ?case by (auto simp: pz_def Let_def)
qed

lemma j_loop_append:
  "\<forall>j \<in> set xs. j < bhi \<Longrightarrow>
   j_loop i blo bhi j2len (xs @ ys) st = j_loop i blo bhi j2len ys (j_loop i blo bhi j2len xs st)"
proof (induction xs arbitrary: st)
  case Nil
  then show ?case by simp
next
  case (Cons x xs)
  obtain new bi bj bs where st: "st = (new, bi, bj, bs)" by (cases st)
  show ?case using Cons unfolding st by (simp add: Let_def)
qed

lemma nb_Suc_pos:
  "lo \<le> j \<Longrightarrow> b2j (a ! j) \<noteq> [] \<Longrightarrow> nb b2j a lo (Suc j) = nb b2j a lo j + 1"
  by simp

lemma nb_Suc_zero:
  "b2j (a ! j) = [] \<Longrightarrow> nb b2j a lo (Suc j) = 0"
  by simp

declare nb.simps(2) [simp del]

lemma pz_0 [simp]: "pz f 0 = 0"
  by (simp add: pz_def)

lemma pz_Suc [simp]: "pz f (Suc j) = (case f j of None \<Rightarrow> 0 | Some v \<Rightarrow> v)"
  by (simp add: pz_def)

lemma diag_row:
  assumes inv: "diag_inv b2j a lo i (j2len, bi, bj, bs)"
    and i: "lo \<le> i" "i < hi" "hi \<le> length a"
    and js: "b2j (a ! i) = [] \<or> b2j (a ! i) = [j \<leftarrow> [0..<length a]. a ! j = a ! i]"
  shows "diag_inv b2j a lo (Suc i) (j_loop i lo hi j2len (b2j (a ! i)) (Map.empty, bi, bj, bs))"
proof -
  from inv have I1: "bi = bj"
    and I2: "\<And>j. pz j2len j \<le> nb b2j a lo j"
    and I3: "\<And>j. pz j2len j \<le> nb b2j a lo i"
    and I5: "pz j2len i = nb b2j a lo i"
    and I4: "\<And>j. j \<le> i \<Longrightarrow> nb b2j a lo j \<le> bs"
    unfolding diag_inv_def by auto
  show ?thesis
  proof (cases "b2j (a ! i) = []")
    case True
    then have n: "nb b2j a lo (Suc i) = 0" by (rule nb_Suc_zero)
    have "\<And>j. j \<le> Suc i \<Longrightarrow> nb b2j a lo j \<le> bs"
      using I4 n by (metis le_SucE le0)
    then show ?thesis using True I1 n unfolding diag_inv_def by (simp add: pz_def)
  next
    case False
    define js where "js = b2j (a ! i)"
    have jsd: "js = [j \<leftarrow> [0..<length a]. a ! j = a ! i]" using js False js_def by simp
    have ia: "i < length a" using i by simp
    define xs where "xs = [j \<leftarrow> [0..<i]. a ! j = a ! i]"
    define ys where "ys = [j \<leftarrow> [Suc i..<length a]. a ! j = a ! i]"
    have "[0..<i + (length a - i)] = [0..<i] @ [i..<i + (length a - i)]"
      by (rule upt_add_eq_append) simp
    then have "[0..<length a] = [0..<i] @ [i..<length a]"
      using ia by simp
    also have "[i..<length a] = i # [Suc i..<length a]"
      by (rule upt_conv_Cons) (rule ia)
    finally have "[0..<length a] = [0..<i] @ i # [Suc i..<length a]" .
    then have split: "js = xs @ i # ys" unfolding jsd xs_def ys_def by simp
    have srt: "sorted js" unfolding jsd by (simp add: sorted_wrt_filter)
    have mem: "\<And>j. j \<in> set js \<Longrightarrow> a ! j = a ! i \<and> j < length a" unfolding jsd by simp
    have nbS: "\<And>j. j \<in> set js \<Longrightarrow> lo \<le> j \<Longrightarrow> nb b2j a lo (Suc j) = nb b2j a lo j + 1"
      using mem False js_def by (intro nb_Suc_pos) auto
    define k where "k = pz j2len i + 1"
    have ki: "k = nb b2j a lo (Suc i)" unfolding k_def I5 using False i by (simp add: nb_Suc_pos)
    \<comment> \<open>the positions before i\<close>
    have xs_lt: "\<forall>j \<in> set xs. j < hi" unfolding xs_def using i by auto
    have xs_le: "\<forall>j \<in> set xs. lo \<le> j \<and> j < hi \<longrightarrow> pz j2len j + 1 \<le> bs"
    proof (intro ballI impI)
      fix j assume j: "j \<in> set xs" and r: "lo \<le> j \<and> j < hi"
      then have ji: "j < i" "j \<in> set js" unfolding xs_def split by auto
      have "pz j2len j + 1 \<le> nb b2j a lo j + 1" using I2 by simp
      also have "\<dots> = nb b2j a lo (Suc j)" using nbS[OF ji(2)] r by simp
      also have "\<dots> \<le> bs" using I4[of "Suc j"] ji(1) by simp
      finally show "pz j2len j + 1 \<le> bs" .
    qed
    obtain new1 where st1: "j_loop i lo hi j2len xs (Map.empty, bi, bj, bs) = (new1, bi, bj, bs)"
      using j_loop_best_le[OF xs_le, of i Map.empty bi bj]
      by (cases "j_loop i lo hi j2len xs (Map.empty, bi, bj, bs)") auto
    define best2 where "best2 = (if k > bs then (i + 1 - k, i + 1 - k, k) else (bi, bj, bs))"
    define bs2 where "bs2 = (if k > bs then k else bs)"
    have b2: "best2 = (fst best2, fst best2, bs2)" unfolding best2_def bs2_def using I1 by simp
    have step: "j_loop i lo hi j2len (i # ys) (new1, bi, bj, bs) =
        j_loop i lo hi j2len ys (new1(i \<mapsto> k), best2)"
      using i unfolding k_def pz_def best2_def by (simp add: Let_def)
    have ys_le: "\<forall>j \<in> set ys. lo \<le> j \<and> j < hi \<longrightarrow> pz j2len j + 1 \<le> bs2"
    proof (intro ballI impI)
      fix j assume "j \<in> set ys"
      have "pz j2len j + 1 \<le> k" unfolding k_def I5 using I3[of j] by simp
      then show "pz j2len j + 1 \<le> bs2" unfolding bs2_def by simp
    qed
    have fin: "snd (j_loop i lo hi j2len js (Map.empty, bi, bj, bs)) = (fst best2, fst best2, bs2)"
      unfolding split j_loop_append[OF xs_lt] st1 step
      by (subst b2) (rule j_loop_best_le[OF ys_le])
    have new: "\<And>j. fst (j_loop i lo hi j2len js (Map.empty, bi, bj, bs)) j =
      (if j \<in> set js \<and> lo \<le> j \<and> j < hi then Some (pz j2len j + 1) else None)"
      using j_loop_new[OF srt, of i lo hi j2len Map.empty "(bi, bj, bs)"] by simp
    obtain new' where res: "j_loop i lo hi j2len js (Map.empty, bi, bj, bs) = (new', fst best2, fst best2, bs2)"
      using fin by (cases "j_loop i lo hi j2len js (Map.empty, bi, bj, bs)") auto
    have new': "\<And>j. new' j = (if j \<in> set js \<and> lo \<le> j \<and> j < hi then Some (pz j2len j + 1) else None)"
      using new res by simp
    have pzn: "pz new' j \<le> nb b2j a lo j \<and> pz new' j \<le> nb b2j a lo (Suc i)" for j
    proof (cases "j = 0")
      case True
      then show ?thesis by simp
    next
      case j0: False
      then obtain j' where j': "j = Suc j'" by (cases j) auto
      show ?thesis
      proof (cases "j' \<in> set js \<and> lo \<le> j' \<and> j' < hi")
        case True
        then have v: "pz new' j = pz j2len j' + 1" unfolding j' by (simp add: new')
        have "pz new' j = pz j2len j' + 1" by (rule v)
        also have "\<dots> \<le> nb b2j a lo j' + 1" using I2 by simp
        also have "\<dots> = nb b2j a lo (Suc j')" using nbS[of j'] True by simp
        finally have a1: "pz new' j \<le> nb b2j a lo j" unfolding j' .
        have "pz new' j = pz j2len j' + 1" by (rule v)
        also have "\<dots> \<le> nb b2j a lo i + 1" using I3 by simp
        also have "\<dots> = nb b2j a lo (Suc i)" using ki k_def I5 by simp
        finally have a2: "pz new' j \<le> nb b2j a lo (Suc i)" .
        from a1 a2 show ?thesis by simp
      next
        case False
        then have "pz new' j = 0" unfolding j' by (simp add: new')
        then show ?thesis by simp
      qed
    qed
    have i_in: "i \<in> set js" unfolding split by simp
    have p5: "pz new' (Suc i) = nb b2j a lo (Suc i)"
      using new'[of i] i_in i ki k_def by simp
    have p4: "\<And>j. j \<le> Suc i \<Longrightarrow> nb b2j a lo j \<le> bs2"
    proof -
      fix j assume "j \<le> Suc i"
      then consider "j \<le> i" | "j = Suc i" by linarith
      then show "nb b2j a lo j \<le> bs2"
      proof cases
        case 1
        then show ?thesis using I4[of j] unfolding bs2_def by simp
      next
        case 2
        then show ?thesis using ki unfolding bs2_def by simp
      qed
    qed
    show ?thesis unfolding js_def[symmetric] res diag_inv_def
      using pzn p5 p4 by simp
  qed
qed

lemma nb_le_lo: "j \<le> lo \<Longrightarrow> nb b2j a lo j = 0"
  by (cases j) (auto simp: nb.simps(2))

lemma i_loop_diag:
  assumes "diag_inv b2j a lo i0 (j2len, bi, bj, bs)" "lo \<le> i0" "i0 \<le> hi" "hi \<le> length a"
    and b2j: "\<And>x. b2j x = [] \<or> b2j x = [j \<leftarrow> [0..<length a]. a ! j = x]"
  shows "fst (snd (i_loop a b2j lo hi [i0..<hi] (j2len, bi, bj, bs)))
       = fst (snd (snd (i_loop a b2j lo hi [i0..<hi] (j2len, bi, bj, bs))))"
  using assms(1-4)
proof (induction "hi - i0" arbitrary: i0 j2len bi bj bs)
  case 0
  then show ?case by (simp add: diag_inv_def)
next
  case (Suc n)
  then have lt: "i0 < hi" by simp
  obtain new bi' bj' bs' where
    r: "j_loop i0 lo hi j2len (b2j (a ! i0)) (Map.empty, bi, bj, bs) = (new, bi', bj', bs')"
    by (cases "j_loop i0 lo hi j2len (b2j (a ! i0)) (Map.empty, bi, bj, bs)") auto
  have inv: "diag_inv b2j a lo (Suc i0) (new, bi', bj', bs')"
    using diag_row[OF Suc.prems(1) Suc.prems(2) lt Suc.prems(4) b2j] unfolding r .
  have u: "[i0..<hi] = i0 # [Suc i0..<hi]" by (rule upt_conv_Cons) (rule lt)
  have "fst (snd (i_loop a b2j lo hi [Suc i0..<hi] (new, bi', bj', bs')))
       = fst (snd (snd (i_loop a b2j lo hi [Suc i0..<hi] (new, bi', bj', bs'))))"
    by (rule Suc.hyps(1)[OF _ inv]) (use Suc.hyps(2) Suc.prems lt in auto)
  then show ?case unfolding u by (simp add: r)
qed

lemma extend_back_same:
  "lo \<le> bi \<Longrightarrow> extend_back a a lo lo (bi, bi, bs) = (lo, lo, bs + (bi - lo))"
proof (induction "bi - lo" arbitrary: bi bs)
  case 0
  then show ?case by (subst extend_back.simps) simp
next
  case (Suc n)
  then have "extend_back a a lo lo (bi - 1, bi - 1, bs + 1) = (lo, lo, bs + 1 + (bi - 1 - lo))"
    by (intro Suc.hyps(1)) auto
  then show ?case using Suc.hyps(2) by (subst extend_back.simps) auto
qed

lemma extend_fwd_same:
  "lo + s \<le> hi \<Longrightarrow> extend_fwd a a hi hi (lo, lo, s) = (lo, lo, hi - lo)"
proof (induction "hi - (lo + s)" arbitrary: s)
  case 0
  then show ?case by (subst extend_fwd.simps) simp
next
  case (Suc n)
  then have "extend_fwd a a hi hi (lo, lo, s + 1) = (lo, lo, hi - lo)"
    by (intro Suc.hyps(1)) auto
  then show ?case using Suc.hyps(2) by (subst extend_fwd.simps) auto
qed

lemma find_longest_match_same:
  assumes "lo \<le> hi" "hi \<le> length a"
  shows "find_longest_match a a lo hi lo hi = (lo, lo, hi - lo)"
proof -
  define st where "st = i_loop a (chain_b a) lo hi [lo..<hi] (Map.empty, lo, lo, 0)"
  obtain j2len bi bj bs where st': "st = (j2len, bi, bj, bs)" by (cases st) auto
  have d0: "diag_inv (chain_b a) a lo lo (Map.empty, lo, lo, 0)"
    unfolding diag_inv_def by (simp add: nb_le_lo pz_def)
  have "fst (snd st) = fst (snd (snd st))"
    unfolding st_def by (rule i_loop_diag[OF d0 _ assms]) (simp_all add: chain_b_cases)
  then have eq: "bj = bi" unfolding st' by simp
  have "best_ok lo hi lo hi (snd st)"
    unfolding st_def by (rule i_loop_inv) (use assms in \<open>auto simp: j2len_ok_def best_ok_def\<close>)
  then have ok: "lo \<le> bi" "bs + bi \<le> hi"
    unfolding st' best_ok_def using assms(1) by (auto split: if_splits)
  have "find_longest_match a a lo hi lo hi = extend_fwd a a hi hi (extend_back a a lo lo (bi, bi, bs))"
    unfolding find_longest_match_def st_def[symmetric] st' eq by simp
  also have "\<dots> = extend_fwd a a hi hi (lo, lo, bs + (bi - lo))"
    by (simp only: extend_back_same[OF ok(1)])
  also have "\<dots> = (lo, lo, hi - lo)"
    by (rule extend_fwd_same) (use ok in simp)
  finally show ?thesis .
qed

lemma blocks_rec_same:
  "blocks_rec a a 0 (length a) 0 (length a) = (if a = [] then [] else [(0, 0, length a)])"
  by (subst blocks_rec.simps) (simp add: find_longest_match_same)

lemma get_matching_blocks_same:
  "get_matching_blocks a a =
     (if a = [] then [(0, 0, 0)] else [(0, 0, length a), (length a, length a, 0)])"
  unfolding get_matching_blocks_def Let_def sort_mb_loop blocks_rec_same by simp

lemma ratio_same: "ratio a a = 1"
  unfolding ratio_def get_matching_blocks_same calculate_ratio_def by simp

lemma get_opcodes_same:
  "get_opcodes a a = (if a = [] then [] else [(Equal, 0, length a, 0, length a)])"
  unfolding get_opcodes_def get_matching_blocks_same by (simp add: Let_def)

lemma blocks_rec_empty:
  "a = [] \<or> b = [] \<Longrightarrow> blocks_rec a b 0 (length a) 0 (length b) = []"
proof -
  assume e: "a = [] \<or> b = []"
  obtain i j k where f: "find_longest_match a b 0 (length a) 0 (length b) = (i, j, k)"
    by (cases "find_longest_match a b 0 (length a) 0 (length b)")
  have "k = 0"
  proof (rule ccontr)
    assume "k \<noteq> 0"
    from find_longest_match_bounds(3,4)[OF f this] e show False using \<open>k \<noteq> 0\<close> by auto
  qed
  then show ?thesis using f by (subst blocks_rec.simps) simp
qed

lemma get_matching_blocks_empty:
  "a = [] \<or> b = [] \<Longrightarrow> get_matching_blocks a b = [(length a, length b, 0)]"
  unfolding get_matching_blocks_def Let_def sort_mb_loop by (simp add: blocks_rec_empty)

lemma ratio_empty:
  "a = [] \<or> b = [] \<Longrightarrow> ratio a b = (if a = [] \<and> b = [] then 1 else 0)"
  unfolding ratio_def by (auto simp: get_matching_blocks_empty calculate_ratio_def)

section \<open>Properties of the classification loops\<close>

lemma insert_empty_append:
  "insert_empty (xs @ ys) = (insert_empty xs \<and> insert_empty ys)"
  by (auto simp: insert_empty_def)

lemma opcodes_loop_insert_empty:
  "insert_empty answer \<Longrightarrow> insert_empty (opcodes_loop i j blocks answer)"
proof (induction blocks arbitrary: i j answer)
  case Nil
  then show ?case by simp
next
  case (Cons blk blocks)
  obtain ai bj sz where blk: "blk = (ai, bj, sz)" by (cases blk)
  show ?case unfolding blk opcodes_loop.simps Let_def
    by (rule Cons.IH) (use Cons.prems in \<open>auto simp: insert_empty_append insert_empty_def\<close>)
qed

lemma get_opcodes_insert_empty: "insert_empty (get_opcodes a b)"
  unfolding get_opcodes_def by (rule opcodes_loop_insert_empty) (simp add: insert_empty_def)

lemma replace_loop_mistakes:
  "\<exists>added. fst (replace_loop rw fw j1 is (ms, cw)) = ms @ added
     \<and> (\<forall>m \<in> set added. mtype m = incorrect_word)"
proof (induction "is" arbitrary: ms cw)
  case Nil
  then show ?case by simp
next
  case (Cons i "is")
  show ?case
  proof (cases "i < length rw")
    case True
    define m where "m = \<lparr>word = rw ! i, correct = (if j1 < length fw then fw ! j1 else []),
        position = i, mtype = incorrect_word\<rparr>"
    from Cons[of "ms @ [m]" "cw @ [if correct m \<noteq> [] then correct m else ascii ''[silence]'']"]
    obtain added where "fst (replace_loop rw fw j1 is (ms @ [m], cw @ [if correct m \<noteq> [] then correct m else ascii ''[silence]''])) = (ms @ [m]) @ added"
      "\<forall>m \<in> set added. mtype m = incorrect_word" by blast
    then show ?thesis using True unfolding m_def
      by (intro exI[of _ "m # added"]) (simp add: Let_def m_def)
  next
    case False
    then show ?thesis using Cons[of ms cw] by simp
  qed
qed

lemma opcode_loop_total:
  assumes "insert_empty ops"
  shows "\<exists>added cw'. opcode_loop rw fw ops (ms, cw) = Inr (ms @ added, cw')
     \<and> (\<forall>m \<in> set added. mtype m = incorrect_word)"
  using assms
proof (induction ops arbitrary: ms cw)
  case Nil
  then show ?case by simp
next
  case (Cons op ops)
  obtain t i1 i2 j1 j2 where op: "op = (t, i1, i2, j1, j2)" by (cases op)
  have ie: "insert_empty ops" using Cons.prems by (simp add: insert_empty_def)
  show ?case
  proof (cases t)
    case Replace
    obtain ms1 cw1 where r: "replace_loop rw fw j1 [i1..<i2] (ms, cw) = (ms1, cw1)"
      by (cases "replace_loop rw fw j1 [i1..<i2] (ms, cw)")
    from replace_loop_mistakes[of rw fw j1 "[i1..<i2]" ms cw] r
    obtain a1 where a1: "ms1 = ms @ a1" "\<forall>m \<in> set a1. mtype m = incorrect_word" by auto
    from Cons.IH[OF ie, of ms1 cw1]
    obtain a2 cw' where "opcode_loop rw fw ops (ms1, cw1) = Inr (ms1 @ a2, cw')"
      "\<forall>m \<in> set a2. mtype m = incorrect_word" by blast
    then show ?thesis using a1 r op Replace
      by (intro exI[of _ "a1 @ a2"] exI[of _ cw']) auto
  next
    case Delete
    obtain ms1 cw1 where r: "replace_loop rw fw j1 [i1..<i2] (ms, cw) = (ms1, cw1)"
      by (cases "replace_loop rw fw j1 [i1..<i2] (ms, cw)")
    from replace_loop_mistakes[of rw fw j1 "[i1..<i2]" ms cw] r
    obtain a1 where a1: "ms1 = ms @ a1" "\<forall>m \<in> set a1. mtype m = incorrect_word" by auto
    from Cons.IH[OF ie, of ms1 cw1]
    obtain a2 cw' where "opcode_loop rw fw ops (ms1, cw1) = Inr (ms1 @ a2, cw')"
      "\<forall>m \<in> set a2. mtype m = incorrect_word" by blast
    then show ?thesis using a1 r op Delete
      by (intro exI[of _ "a1 @ a2"] exI[of _ cw']) auto
  next
    case Insert
    then have "i2 \<le> i1" using Cons.prems op by (simp add: insert_empty_def)
    then have "insert_loop rw [i1..<i2] ms = Inr ms" by simp
    then show ?thesis using Cons.IH[OF ie, of ms cw] op Insert by simp
  next
    case Equal
    then show ?thesis using Cons.IH[OF ie, of ms "cw @ take (i2 - i1) (drop i1 rw)"] op by simp
  qed
qed

lemma escalate_length [simp]: "length (escalate ms) = length ms"
  by (induction ms) auto

lemma escalate_nth:
  "n < length ms \<Longrightarrow>
   escalate ms ! n = (if mtype (ms ! n) = incorrect_word then (ms ! n)\<lparr>mtype := pronunciation\<rparr> else ms ! n)"
proof (induction ms arbitrary: n)
  case Nil
  then show ?case by simp
next
  case (Cons m ms)
  then show ?case by (cases n) auto
qed

section \<open>The claims\<close>

lemma escalation_cases:
  "fst (escalation phonemize recognized_text reference_text lang_code ms) = ms
   \<or> fst (escalation phonemize recognized_text reference_text lang_code ms) = escalate ms"
proof (cases "lang_code \<in> set [en, fr, de, nl, ko]")
  case False
  then show ?thesis unfolding escalation_def by simp
next
  case True
  show ?thesis
  proof (cases "phonemize recognized_text lang_code")
    case (Inl e)
    then show ?thesis using True unfolding escalation_def by (cases e) simp
  next
    case r: (Inr rp)
    show ?thesis
    proof (cases "phonemize reference_text lang_code")
      case (Inl e)
      then show ?thesis using True r unfolding escalation_def by (cases e) simp
    next
      case (Inr fp)
      then show ?thesis using True r unfolding escalation_def by simp
    qed
  qed
qed

lemma detect_mistakes_unfold:
  assumes "opcode_loop (split (lower recognized_text)) (split (lower reference_text))
      (get_opcodes (split (lower recognized_text)) (split (lower reference_text))) ([], [])
    = Inr (ms, cw)"
  shows "detect_mistakes lower phonemize recognized_text reference_text lang_code
    = (Inr (fst (escalation phonemize recognized_text reference_text lang_code ms),
            join (ascii '' '') cw),
       snd (escalation phonemize recognized_text reference_text lang_code ms))"
  unfolding detect_mistakes_def Let_def assms
  by (simp add: case_prod_beta)

lemma detect_mistakes_result:
  fixes lower phonemize recognized_text reference_text lang_code
  defines "rw \<equiv> split (lower recognized_text)"
    and "fw \<equiv> split (lower reference_text)"
  obtains ms cw where
    "opcode_loop rw fw (get_opcodes rw fw) ([], []) = Inr (ms, cw)"
    "\<forall>m \<in> set ms. mtype m = incorrect_word"
    "detect_mistakes lower phonemize recognized_text reference_text lang_code
    = (Inr (fst (escalation phonemize recognized_text reference_text lang_code ms),
            join (ascii '' '') cw),
       snd (escalation phonemize recognized_text reference_text lang_code ms))"
proof -
  from opcode_loop_total[OF get_opcodes_insert_empty, of rw fw rw fw "[]" "[]"]
  obtain ms cw where l: "opcode_loop rw fw (get_opcodes rw fw) ([], []) = Inr (ms, cw)"
    and t: "\<forall>m \<in> set ms. mtype m = incorrect_word" by auto
  have "detect_mistakes lower phonemize recognized_text reference_text lang_code
    = (Inr (fst (escalation phonemize recognized_text reference_text lang_code ms),
            join (ascii '' '') cw),
       snd (escalation phonemize recognized_text reference_text lang_code ms))"
    by (rule detect_mistakes_unfold) (use l in \<open>simp add: rw_def fw_def\<close>)
  with l t that show thesis by blast
qed

lemma escalate_no_extra:
  "\<forall>m \<in> set ms. mtype m \<noteq> extra_word \<Longrightarrow> \<forall>m \<in> set (escalate ms). mtype m \<noteq> extra_word"
  by (induction ms) auto

text \<open>
  C3. For all texts, every language code and every phonemizer, \<open>detect_mistakes\<close>
  returns (it does not raise) and no mistake of the list it returns has the type
  \<open>extra_word\<close>: an \<open>insert\<close> opcode has \<open>i2 \<le> i1\<close>, so the loop of the
  \<open>insert\<close> branch runs over an empty range, and the escalation only rewrites
  \<open>incorrect_word\<close>.
\<close>

theorem detect_mistakes_no_extra_word:
  "\<exists>mistakes corrected_text.
     fst (detect_mistakes lower phonemize recognized_text reference_text lang_code)
       = Inr (mistakes, corrected_text)
     \<and> (\<forall>m \<in> set mistakes. mtype m \<noteq> extra_word)"
proof -
  obtain ms cw where
    t: "\<forall>m \<in> set ms. mtype m = incorrect_word"
    and d: "detect_mistakes lower phonemize recognized_text reference_text lang_code
    = (Inr (fst (escalation phonemize recognized_text reference_text lang_code ms),
            join (ascii '' '') cw),
       snd (escalation phonemize recognized_text reference_text lang_code ms))"
    by (rule detect_mistakes_result)
  from t have n: "\<forall>m \<in> set ms. mtype m \<noteq> extra_word" by simp
  have "\<forall>m \<in> set (fst (escalation phonemize recognized_text reference_text lang_code ms)).
          mtype m \<noteq> extra_word"
    using escalation_cases[of phonemize recognized_text reference_text lang_code ms]
      n escalate_no_extra[OF n] by metis
  then show ?thesis unfolding d by simp
qed

theorem detect_mistakes_no_extra_word_witness:
  "\<exists>m corrected_text.
     fst (detect_mistakes ascii_lower (\<lambda>t l. Inr t) (ascii ''hello how are you'')
            (ascii ''how are you'') en) = Inr ([m], corrected_text)
     \<and> (\<forall>m' \<in> set [m]. mtype m' \<noteq> extra_word)"
proof -
  have e: "fst (detect_mistakes ascii_lower (\<lambda>t l. Inr t) (ascii ''hello how are you'')
            (ascii ''how are you'') en)
      = Inr ([\<lparr>word = ascii ''hello'', correct = ascii ''how'', position = 0,
               mtype = incorrect_word\<rparr>], ascii ''how how are you'')"
    by code_simp
  from detect_mistakes_no_extra_word[of ascii_lower "\<lambda>t l. Inr t" "ascii ''hello how are you''"
      "ascii ''how are you''" en]
  show ?thesis unfolding e by auto
qed

end
